theory Spec2Isabelle
  imports Complex_Main "HOL-Library.Multiset"
begin

section \<open>htmplate: strings and JavaScript primitives\<close>

text \<open>
  The program is \<^verbatim>\<open>src/compiler.js\<close>: a \<^verbatim>\<open>PreProcessor\<close> that removes blank
  lines and turns leading spaces into tabs, and a \<^verbatim>\<open>Compiler\<close> that turns the lines of
  the canonical text into nested HTML. A JavaScript string is modelled as a \<^typ>\<open>string\<close>;
  the program reads its input as ASCII, so every character is one \<^typ>\<open>char\<close>.
\<close>

abbreviation TAB :: char where
  "TAB \<equiv> CHR 0x09"

abbreviation NL :: char where
  "NL \<equiv> CHR ''\<newline>''"

abbreviation SPC :: char where
  "SPC \<equiv> CHR '' ''"

text \<open>
  \<^verbatim>\<open>s.substring(a, b)\<close>: both indices are clamped to the length and swapped when
  \<^verbatim>\<open>a > b\<close>; \<^verbatim>\<open>s.substring(a)\<close> runs to the end of the string.
\<close>

definition substring :: "string \<Rightarrow> nat \<Rightarrow> nat \<Rightarrow> string" where
  "substring s a b =
     (let a' = min a (length s); b' = min b (length s)
      in take (max a' b' - min a' b') (drop (min a' b') s))"

definition substringFrom :: "string \<Rightarrow> nat \<Rightarrow> string" where
  "substringFrom s a = drop a s"

text \<open>
  \<^verbatim>\<open>s.trim()\<close> strips white space and line terminators from both ends. Among the
  characters below 256 these are TAB, LF, VT, FF, CR, space and the no-break space.
\<close>

definition isWhiteSpace :: "char \<Rightarrow> bool" where
  "isWhiteSpace c = (c = TAB \<or> c = NL \<or> c = CHR 0x0B \<or> c = CHR 0x0C \<or> c = CHR 0x0D
     \<or> c = SPC \<or> c = CHR 0xA0)"

definition trim :: "string \<Rightarrow> string" where
  "trim s = rev (dropWhile isWhiteSpace (rev (dropWhile isWhiteSpace s)))"

text \<open>
  \<^verbatim>\<open>s.split('\n')\<close>: always at least one piece, so the last case below never
  applies.
\<close>

fun split :: "string \<Rightarrow> string list" where
  "split [] = [[]]"
| "split (c # cs) =
     (if c = NL then [] # split cs
      else (case split cs of
              piece # pieces \<Rightarrow> (c # piece) # pieces
            | [] \<Rightarrow> [[c]]))"

text \<open>\<^verbatim>\<open>xs.join(sep)\<close>.\<close>

fun join :: "string \<Rightarrow> string list \<Rightarrow> string" where
  "join sep [] = []"
| "join sep [x] = x"
| "join sep (x # y # ys) = x @ sep @ join sep (y # ys)"

text \<open>
  The index of the first character satisfying a test, as the scanning loops
  \<^verbatim>\<open>for (j = ...; j < line.length; j++) if (...) return/break\<close> find it; the index is
  relative to the start of the scanned suffix.
\<close>

fun firstIndex :: "(char \<Rightarrow> bool) \<Rightarrow> string \<Rightarrow> nat option" where
  "firstIndex P [] = None"
| "firstIndex P (c # cs) = (if P c then Some 0 else map_option Suc (firstIndex P cs))"

section \<open>The pre-processor\<close>

datatype indentation = INDENTED_WITH_SPACES | INDENTED_WITH_TABS

text \<open>
  \<^verbatim>\<open>_removeEmptyLines\<close>: the loop splices out every line whose trimmed text is empty
  and looks at the same index again.
\<close>

fun removeEmptyLines :: "string list \<Rightarrow> string list" where
  "removeEmptyLines [] = []"
| "removeEmptyLines (l # ls) =
     (if length (trim l) = 0 then removeEmptyLines ls else l # removeEmptyLines ls)"

text \<open>
  \<^verbatim>\<open>_getIndentationType\<close>: the first line that starts with a space or a tab decides;
  \<^verbatim>\<open>lines[i][0]\<close> of an empty line is \<^verbatim>\<open>undefined\<close> and equals neither.
\<close>

fun getIndentationType :: "string list \<Rightarrow> indentation" where
  "getIndentationType [] = INDENTED_WITH_TABS"
| "getIndentationType ([] # ls) = getIndentationType ls"
| "getIndentationType ((c # cs) # ls) =
     (if c = SPC then INDENTED_WITH_SPACES
      else if c = TAB then INDENTED_WITH_TABS
      else getIndentationType ls)"

text \<open>
  \<^verbatim>\<open>_getSpacesPerTab\<close>: the number of leading spaces of the first line that starts with
  a space and holds something else after them; a line of spaces only ends the inner loop
  without a \<^verbatim>\<open>return\<close> and the search goes on.
\<close>

fun getSpacesPerTab :: "string list \<Rightarrow> nat" where
  "getSpacesPerTab [] = 0"
| "getSpacesPerTab ([] # ls) = getSpacesPerTab ls"
| "getSpacesPerTab ((c # cs) # ls) =
     (if c = SPC then
        (case firstIndex (\<lambda>d. d \<noteq> SPC) (c # cs) of
           Some spacesPerTab \<Rightarrow> spacesPerTab
         | None \<Rightarrow> getSpacesPerTab ls)
      else getSpacesPerTab ls)"

text \<open>
  \<^verbatim>\<open>var numTabs = spacesEndAt / spacesPerTab\<close> is a division of JavaScript numbers, not
  an integer division: the quotient keeps its fraction, a positive number divided by zero
  is \<^verbatim>\<open>Infinity\<close> and \<^verbatim>\<open>0 / 0\<close> is \<^verbatim>\<open>NaN\<close>. The quotient of two string indices is
  modelled as the exact rational: a double that is not an integer never rounds to one
  when the operands are below \<open>2^53\<close>, so the loop below runs the same number of times.
\<close>

datatype jsnum = Finite rat | PosInfinity | NaN

definition js_div :: "nat \<Rightarrow> nat \<Rightarrow> jsnum" where
  "js_div a b =
     (if b = 0 then (if a = 0 then NaN else PosInfinity)
      else Finite (of_nat a / of_nat b))"

text \<open>
  \<^verbatim>\<open>for (var j = 0; j < numTabs; j++) tabs += '\t'\<close> for a finite \<^verbatim>\<open>numTabs\<close>.
\<close>

function tabsLoop :: "nat \<Rightarrow> rat \<Rightarrow> string \<Rightarrow> string" where
  "tabsLoop j numTabs tabs =
     (if of_nat j < numTabs then tabsLoop (Suc j) numTabs (tabs @ [TAB]) else tabs)"
  by pat_completeness auto
termination
proof (relation "measure (\<lambda>(j, numTabs, tabs). nat \<lceil>numTabs\<rceil> - j)")
  show "wf (measure (\<lambda>(j, numTabs, tabs). nat \<lceil>numTabs\<rceil> - j))"
    by simp
next
  fix j :: nat and numTabs :: rat and tabs :: string
  assume "of_nat j < numTabs"
  then have "int j < \<lceil>numTabs\<rceil>"
    by (simp add: less_ceiling_iff)
  then show "((Suc j, numTabs, tabs @ [TAB]), (j, numTabs, tabs))
      \<in> measure (\<lambda>(j, numTabs, tabs). nat \<lceil>numTabs\<rceil> - j)"
    by simp
qed

declare tabsLoop.simps [simp del]

text \<open>
  The whole loop: \<^verbatim>\<open>j < NaN\<close> is false at once; \<^verbatim>\<open>j < Infinity\<close> is true for ever, so
  the loop never ends normally (\<open>None\<close>).
\<close>

definition makeTabs :: "jsnum \<Rightarrow> string option" where
  "makeTabs numTabs =
     (case numTabs of
        Finite q \<Rightarrow> Some (tabsLoop 0 q [])
      | NaN \<Rightarrow> Some []
      | PosInfinity \<Rightarrow> None)"

text \<open>
  \<^verbatim>\<open>_replaceSpacesWithTabs\<close>, one line: \<^verbatim>\<open>spacesEndAt\<close> is the index of the first
  character that is not a space (\<open>None\<close> for \<^verbatim>\<open>-1\<close>: the line is left as it is).
\<close>

definition replaceSpacesInLine :: "nat \<Rightarrow> string \<Rightarrow> string option" where
  "replaceSpacesInLine spacesPerTab l =
     (case firstIndex (\<lambda>d. d \<noteq> SPC) l of
        None \<Rightarrow> Some l
      | Some spacesEndAt \<Rightarrow>
          map_option (\<lambda>tabs. tabs @ substringFrom l spacesEndAt)
            (makeTabs (js_div spacesEndAt spacesPerTab)))"

fun replaceSpacesWithTabs :: "nat \<Rightarrow> string list \<Rightarrow> string list option" where
  "replaceSpacesWithTabs spacesPerTab [] = Some []"
| "replaceSpacesWithTabs spacesPerTab (l # ls) =
     (case replaceSpacesInLine spacesPerTab l of
        None \<Rightarrow> None
      | Some l' \<Rightarrow> map_option ((#) l') (replaceSpacesWithTabs spacesPerTab ls))"

text \<open>\<^verbatim>\<open>PreProcessor.prototype.process\<close>, on the content given to the constructor.\<close>

definition process :: "string \<Rightarrow> string option" where
  "process content =
     (let lines = removeEmptyLines (split content) in
      if getIndentationType lines = INDENTED_WITH_SPACES
      then map_option (join [NL]) (replaceSpacesWithTabs (getSpacesPerTab lines) lines)
      else Some (join [NL] lines))"

section \<open>JavaScript objects and loose equality\<close>

text \<open>
  The attribute object \<^verbatim>\<open>props\<close> of a line is modelled by its own string-keyed
  properties in the order of their creation. Assigning to an existing key keeps its place;
  assigning a string to \<^verbatim>\<open>__proto__\<close> is ignored by the inherited setter.
\<close>

type_synonym jsobject = "(string \<times> string) list"

definition obj_get :: "jsobject \<Rightarrow> string \<Rightarrow> string option" where
  "obj_get ob k = map_of ob k"

definition obj_set :: "jsobject \<Rightarrow> string \<Rightarrow> string \<Rightarrow> jsobject" where
  "obj_set ob k v =
     (if k = ''__proto__'' then ob
      else if k \<in> set (map fst ob)
        then map (\<lambda>(k', v'). if k' = k then (k', v) else (k', v')) ob
      else ob @ [(k, v)])"

definition isDigit :: "char \<Rightarrow> bool" where
  "isDigit c = (c \<in> set ''0123456789'')"

definition digitVal :: "char \<Rightarrow> nat" where
  "digitVal c = of_char c - 48"

definition decimalValue :: "string \<Rightarrow> nat" where
  "decimalValue ds = foldl (\<lambda>a c. 10 * a + digitVal c) 0 ds"

text \<open>
  \<^verbatim>\<open>for (var key in props)\<close> visits the keys that are array indices (canonical
  decimal numerals below \<open>2^32 - 1\<close>) first, in ascending numeric order, and then the
  other keys in the order of their creation.
\<close>

definition isArrayIndex :: "string \<Rightarrow> bool" where
  "isArrayIndex k =
     (k \<noteq> [] \<and> list_all isDigit k \<and> (if k = ''0'' then True else hd k \<noteq> CHR ''0'')
      \<and> decimalValue k < 4294967295)"

definition forInEntries :: "jsobject \<Rightarrow> (string \<times> string) list" where
  "forInEntries ob =
     sort_key (\<lambda>e. decimalValue (fst e)) (filter (\<lambda>e. isArrayIndex (fst e)) ob)
     @ filter (\<lambda>e. \<not> isArrayIndex (fst e)) ob"

text \<open>
  \<^verbatim>\<open>Compiler.Line.NO_TAG\<close> is the number \<^verbatim>\<open>1\<close>, and the emitter tests
  \<^verbatim>\<open>line.tag == Compiler.Line.NO_TAG\<close> with the loose equality: a tag that is a string
  is converted to a number first. The conversion trims the string and reads a numeric
  literal; it is modelled up to the question the program asks, whether the (correctly
  rounded) number is \<^verbatim>\<open>1\<close>. The exact value of a decimal literal rounds to the double
  \<^verbatim>\<open>1\<close> exactly when it lies between \<open>1 - 2^-54\<close> and \<open>1 + 2^-53\<close>.
\<close>

definition isExpChar :: "char \<Rightarrow> bool" where
  "isExpChar c = (c = CHR ''e'' \<or> c = CHR ''E'')"

definition exponentValue :: "string \<Rightarrow> int option" where
  "exponentValue e =
     (case e of
        [] \<Rightarrow> Some 0
      | _ # r \<Rightarrow>
          (let sgn = (if r \<noteq> [] \<and> hd r = CHR ''-'' then - 1 else 1);
               ds = (if r \<noteq> [] \<and> (hd r = CHR ''-'' \<or> hd r = CHR ''+'') then tl r else r)
           in if ds \<noteq> [] \<and> list_all isDigit ds then Some (sgn * int (decimalValue ds))
              else None))"

definition decimalMV :: "string \<Rightarrow> rat option" where
  "decimalMV s =
     (let m = takeWhile (\<lambda>c. \<not> isExpChar c) s;
          e = dropWhile (\<lambda>c. \<not> isExpChar c) s;
          ip = takeWhile (\<lambda>c. c \<noteq> CHR ''.'') m;
          fp = drop 1 (dropWhile (\<lambda>c. c \<noteq> CHR ''.'') m)
      in if list_all isDigit ip \<and> list_all isDigit fp \<and> (ip \<noteq> [] \<or> fp \<noteq> [])
         then (case exponentValue e of
                 None \<Rightarrow> None
               | Some x \<Rightarrow>
                   (let k = x - int (length fp); n = of_nat (decimalValue (ip @ fp))
                    in Some (if 0 \<le> k then n * 10 ^ nat k else n / 10 ^ nat (- k))))
         else None)"

definition isRadixPrefix :: "string \<Rightarrow> bool" where
  "isRadixPrefix t = (take 2 t \<in> set [''0x'', ''0X'', ''0o'', ''0O'', ''0b'', ''0B''])"

definition stringToNumberIsOne :: "string \<Rightarrow> bool" where
  "stringToNumberIsOne s =
     (let t = trim s in
      if isRadixPrefix t then dropWhile (\<lambda>c. c = CHR ''0'') (drop 2 t) = ''1''
      else (case decimalMV (if t \<noteq> [] \<and> hd t = CHR ''+'' then tl t else t) of
              None \<Rightarrow> False
            | Some v \<Rightarrow> 1 - 1 / 2 ^ 54 \<le> v \<and> v \<le> 1 + 1 / 2 ^ 53))"

section \<open>The compiler: lines\<close>

text \<open>
  The \<^verbatim>\<open>tag\<close> field of a \<^verbatim>\<open>Compiler.Line\<close> is \<^verbatim>\<open>null\<close> when the line is made, and
  after parsing either a string or the number \<^verbatim>\<open>NO_TAG\<close>.
\<close>

datatype tagval = TagNull | NO_TAG | TagName string

record Line =
  line :: string
  level :: nat
  tag :: tagval
  props :: jsobject

definition newLine :: "string \<Rightarrow> nat \<Rightarrow> Line" where
  "newLine l lv = \<lparr>line = l, level = lv, tag = TagNull, props = []\<rparr>"

text \<open>\<^verbatim>\<open>line.tag == Compiler.Line.NO_TAG\<close>.\<close>

fun equalsNoTag :: "tagval \<Rightarrow> bool" where
  "equalsNoTag TagNull = False"
| "equalsNoTag NO_TAG = True"
| "equalsNoTag (TagName s) = stringToNumberIsOne s"

text \<open>\<^verbatim>\<open>'<' + line.tag\<close>: the tag as a string.\<close>

fun tagString :: "tagval \<Rightarrow> string" where
  "tagString TagNull = ''null''"
| "tagString NO_TAG = ''1''"
| "tagString (TagName s) = s"

text \<open>\<^verbatim>\<open>_getLineObjects\<close>: the level is the number of leading tabs.\<close>

definition getLineObject :: "string \<Rightarrow> Line" where
  "getLineObject l =
     (let numTabs = length (takeWhile (\<lambda>c. c = TAB) l)
      in newLine (trim (substringFrom l numTabs)) numTabs)"

definition getLineObjects :: "string \<Rightarrow> Line list" where
  "getLineObjects content = map getLineObject (split content)"

text \<open>
  \<^verbatim>\<open>_expandSingleLineStatements\<close>, the inner scan: the index of the first colon outside
  parentheses (relative to the scanned suffix), where the loop breaks.
\<close>

fun findColon :: "string \<Rightarrow> bool \<Rightarrow> nat option" where
  "findColon [] inParens = None"
| "findColon (c # cs) inParens =
     (if c = CHR ''(''  then map_option Suc (findColon cs True)
      else if c = CHR '')'' then map_option Suc (findColon cs False)
      else if \<not> inParens \<and> c = CHR '':'' then Some 0
      else map_option Suc (findColon cs inParens))"

lemma findColon_less: "findColon s b = Some j \<Longrightarrow> j < length s"
  by (induction s arbitrary: b j) (auto split: if_splits)

lemma length_trim_le: "length (trim s) \<le> length s"
proof -
  have "length (trim s) = length (dropWhile isWhiteSpace (rev (dropWhile isWhiteSpace s)))"
    by (simp add: trim_def)
  also have "\<dots> \<le> length (rev (dropWhile isWhiteSpace s))"
    by (rule length_dropWhile_le)
  also have "\<dots> \<le> length s"
    by (simp add: length_dropWhile_le)
  finally show ?thesis .
qed

text \<open>
  The outer loop: a line that is split stays, truncated after the colon, and the rest
  becomes a new line one level deeper, spliced in right after it, which the loop visits
  next.
\<close>

function expandSingleLineStatements :: "Line list \<Rightarrow> Line list" where
  "expandSingleLineStatements [] = []"
| "expandSingleLineStatements (l # ls) =
     (case findColon (line l) False of
        None \<Rightarrow> l # expandSingleLineStatements ls
      | Some j \<Rightarrow>
          (if length (trim (substringFrom (line l) (j + 1))) \<noteq> 0
           then l\<lparr>line := substring (line l) 0 (j + 1)\<rparr>
                  # expandSingleLineStatements
                      (newLine (trim (substringFrom (line l) (j + 1))) (level l + 1) # ls)
           else l # expandSingleLineStatements ls))"
  by pat_completeness auto
termination
proof (relation "measure (\<lambda>ls. sum_list (map (\<lambda>l. Suc (length (line l))) ls))")
  show "wf (measure (\<lambda>ls. sum_list (map (\<lambda>l. Suc (length (line l))) ls)))"
    by simp
next
  fix l :: Line and ls :: "Line list"
  show "(ls, l # ls) \<in> measure (\<lambda>ls. sum_list (map (\<lambda>l. Suc (length (line l))) ls))"
    by simp
next
  fix l :: Line and ls :: "Line list" and j :: nat
  assume "findColon (line l) False = Some j"
  then have "j < length (line l)"
    by (rule findColon_less)
  moreover have "length (trim (substringFrom (line l) (j + 1))) \<le> length (line l) - (j + 1)"
    using length_trim_le [of "substringFrom (line l) (j + 1)"]
    by (simp add: substringFrom_def)
  ultimately show "(newLine (trim (substringFrom (line l) (j + 1))) (level l + 1) # ls, l # ls)
      \<in> measure (\<lambda>ls. sum_list (map (\<lambda>l. Suc (length (line l))) ls))"
    by (simp add: newLine_def)
next
  fix l :: Line and ls :: "Line list" and j :: nat
  show "(ls, l # ls) \<in> measure (\<lambda>ls. sum_list (map (\<lambda>l. Suc (length (line l))) ls))"
    by simp
qed

section \<open>The compiler: parsing a line\<close>

definition isTagDelim :: "char \<Rightarrow> bool" where
  "isTagDelim c = (c = CHR ''#'' \<or> c = CHR ''.'' \<or> c = CHR ''('' \<or> c = CHR '':'')"

definition isIdDelim :: "char \<Rightarrow> bool" where
  "isIdDelim c = (c = CHR ''.'' \<or> c = CHR ''('' \<or> c = CHR '':'')"

definition isClassDelim :: "char \<Rightarrow> bool" where
  "isClassDelim c = (c = CHR ''.'' \<or> c = CHR ''('' \<or> c = CHR '':'' \<or> c = CHR ''#'')"

text \<open>\<^verbatim>\<open>_parseTag\<close>: the text before the first delimiter, \<^verbatim>\<open>NO_TAG\<close> without one.\<close>

definition parseTag :: "string \<Rightarrow> tagval" where
  "parseTag l =
     (case firstIndex isTagDelim l of
        Some i \<Rightarrow> TagName (substring l 0 i)
      | None \<Rightarrow> NO_TAG)"

text \<open>
  \<^verbatim>\<open>_parseId\<close>: \<open>i\<close> is the index of the outer loop and the third argument the text
  from there on. The inner loop returns at the first delimiter after a \<^verbatim>\<open>#\<close>; when it
  finds none the outer loop goes on, and the result is \<^verbatim>\<open>undefined\<close> (\<open>None\<close>) at the end.
\<close>

fun parseIdFrom :: "string \<Rightarrow> nat \<Rightarrow> string \<Rightarrow> string option" where
  "parseIdFrom l i [] = None"
| "parseIdFrom l i (c # cs) =
     (if c = CHR ''#'' then
        (case firstIndex isIdDelim cs of
           Some d \<Rightarrow> Some (substring l (i + 1) (i + 1 + d))
         | None \<Rightarrow> parseIdFrom l (i + 1) cs)
      else parseIdFrom l (i + 1) cs)"

definition parseId :: "string \<Rightarrow> string option" where
  "parseId l = parseIdFrom l 0 l"

text \<open>
  \<^verbatim>\<open>_parseClasses\<close>: a class is pushed only when the inner loop meets a delimiter after
  the dot; at the end of the line the inner loop ends without a push.
\<close>

fun classesFrom :: "string \<Rightarrow> nat \<Rightarrow> bool \<Rightarrow> string \<Rightarrow> string list" where
  "classesFrom l i inParens [] = []"
| "classesFrom l i inParens (c # cs) =
     (if c = CHR ''('' then classesFrom l (i + 1) True cs
      else if c = CHR '')'' then classesFrom l (i + 1) False cs
      else if \<not> inParens \<and> c = CHR ''.'' then
        (case firstIndex isClassDelim cs of
           Some d \<Rightarrow> substring l (i + 1) (i + 1 + d) # classesFrom l (i + 1) inParens cs
         | None \<Rightarrow> classesFrom l (i + 1) inParens cs)
      else classesFrom l (i + 1) inParens cs)"

definition parseClasses :: "string \<Rightarrow> string option" where
  "parseClasses l =
     (let classes = classesFrom l 0 False l
      in if length classes > 0 then Some (join '' '' classes) else None)"

text \<open>
  \<^verbatim>\<open>_parseProps\<close>, first loop: the first \<^verbatim>\<open>(\<close> and the first \<^verbatim>\<open>)\<close> after it, as
  \<open>(parensStartAt, parensEndAt)\<close>; \<open>None\<close> when \<^verbatim>\<open>parensEndAt\<close> stays \<^verbatim>\<open>-1\<close>. The start
  is read only after it has been set.
\<close>

fun findParens :: "string \<Rightarrow> nat \<Rightarrow> bool \<Rightarrow> nat \<Rightarrow> (nat \<times> nat) option" where
  "findParens [] i inParens parensStartAt = None"
| "findParens (c # cs) i inParens parensStartAt =
     (if \<not> inParens \<and> c = CHR ''('' then findParens cs (i + 1) True i
      else if inParens \<and> c = CHR '')'' then Some (parensStartAt, i)
      else findParens cs (i + 1) inParens parensStartAt)"

text \<open>
  \<^verbatim>\<open>while (parenContents[i] == ' ') i++\<close> and
  \<^verbatim>\<open>while (i < parenContents.length && parenContents[i] != ' ') i++\<close>: reading past the end
  gives \<^verbatim>\<open>undefined\<close>, which is not a space.
\<close>

definition skipSpaces :: "string \<Rightarrow> nat \<Rightarrow> nat" where
  "skipSpaces s i = i + length (takeWhile (\<lambda>c. c = SPC) (drop i s))"

definition skipToSpace :: "string \<Rightarrow> nat \<Rightarrow> nat" where
  "skipToSpace s i = i + length (takeWhile (\<lambda>c. c \<noteq> SPC) (drop i s))"

text \<open>
  \<^verbatim>\<open>_parseProps\<close>, second loop, with \<^verbatim>\<open>propStartsAt\<close> as an option (\<open>None\<close> for
  \<^verbatim>\<open>-1\<close>). After a pair has been read and the spaces behind it skipped, the \<^verbatim>\<open>i++\<close> of
  the \<^verbatim>\<open>for\<close> statement still runs.
\<close>

function propsLoop :: "string \<Rightarrow> nat \<Rightarrow> nat option \<Rightarrow> jsobject \<Rightarrow> jsobject" where
  "propsLoop parenContents i propStartsAt props' =
     (if i < length parenContents then
        (case propStartsAt of
           None \<Rightarrow> propsLoop parenContents (i + 1) (Some i) props'
         | Some st \<Rightarrow>
             if parenContents ! i = CHR '':'' then
               propsLoop parenContents
                 (skipSpaces parenContents (skipToSpace parenContents
                    (skipSpaces parenContents (i + 1))) + 1)
                 None
                 (obj_set props' (substring parenContents st i)
                    (substring parenContents (skipSpaces parenContents (i + 1))
                       (skipToSpace parenContents (skipSpaces parenContents (i + 1)))))
             else propsLoop parenContents (i + 1) propStartsAt props')
      else props')"
  by pat_completeness auto
termination
  by (relation "measure (\<lambda>(s, i, st, p). length s - i)")
    (auto simp: skipSpaces_def skipToSpace_def)

declare propsLoop.simps [simp del]

definition parseProps :: "string \<Rightarrow> jsobject" where
  "parseProps l =
     (case findParens l 0 False 0 of
        None \<Rightarrow> []
      | Some (parensStartAt, parensEndAt) \<Rightarrow>
          propsLoop (trim (substring l (parensStartAt + 1) parensEndAt)) 0 None [])"

text \<open>
  \<^verbatim>\<open>_parseLines\<close>, one line: \<^verbatim>\<open>if (id)\<close> and \<^verbatim>\<open>if (classes)\<close> are false for
  \<^verbatim>\<open>undefined\<close> and for the empty string.
\<close>

definition parseLine :: "Line \<Rightarrow> Line" where
  "parseLine l =
     (let p1 = (case parseId (line l) of
                  Some i \<Rightarrow> if i \<noteq> [] then obj_set (props l) ''id'' i else props l
                | None \<Rightarrow> props l);
          p2 = (case parseClasses (line l) of
                  Some cl \<Rightarrow> if cl \<noteq> [] then obj_set p1 ''class'' cl else p1
                | None \<Rightarrow> p1);
          p3 = foldl (\<lambda>p e. obj_set p (fst e) (snd e)) p2 (forInEntries (parseProps (line l)))
      in l\<lparr>tag := parseTag (line l), props := p3\<rparr>)"

definition parseLines :: "Line list \<Rightarrow> Line list" where
  "parseLines ls = map parseLine ls"

text \<open>The constructor \<^verbatim>\<open>Compiler(content)\<close>, as the value of \<^verbatim>\<open>this.lines\<close> it leaves.\<close>

definition Compiler :: "string \<Rightarrow> Line list" where
  "Compiler content = parseLines (expandSingleLineStatements (getLineObjects content))"

section \<open>The compiler: emitting HTML\<close>

definition getOpeningTag :: "Line \<Rightarrow> string" where
  "getOpeningTag l =
     (if equalsNoTag (tag l) then replicate (level l) TAB @ line l @ [NL]
      else replicate (level l) TAB @ ''<'' @ tagString (tag l)
        @ concat (map (\<lambda>e. '' '' @ fst e @ ''='' @ [CHR 0x22] @ snd e @ [CHR 0x22])
            (forInEntries (props l)))
        @ ''>'' @ [NL])"

definition getClosingTag :: "Line \<Rightarrow> string" where
  "getClosingTag l =
     (if equalsNoTag (tag l) then []
      else replicate (level l) TAB @ ''</'' @ tagString (tag l) @ ''>'' @ [NL])"

text \<open>
  \<^verbatim>\<open>compile\<close>. The stack is a list with its top at the head. \<open>closeFrom\<close> is the inner
  \<^verbatim>\<open>while\<close> loop for a line of level \<open>lv\<close>, \<open>closeAll\<close> the loop after the last line.
\<close>

fun closeFrom :: "Line list \<Rightarrow> nat \<Rightarrow> string \<Rightarrow> Line list \<times> string" where
  "closeFrom [] lv compiled = ([], compiled)"
| "closeFrom (topLine # lineStack) lv compiled =
     (if level topLine \<ge> lv then closeFrom lineStack lv (compiled @ getClosingTag topLine)
      else (topLine # lineStack, compiled))"

fun closeAll :: "Line list \<Rightarrow> string \<Rightarrow> string" where
  "closeAll [] compiled = compiled"
| "closeAll (topLine # lineStack) compiled = closeAll lineStack (compiled @ getClosingTag topLine)"

fun compileLoop :: "Line list \<Rightarrow> Line list \<Rightarrow> string \<Rightarrow> string" where
  "compileLoop [] lineStack compiled = closeAll lineStack compiled"
| "compileLoop (l # ls) lineStack compiled =
     (case closeFrom lineStack (level l) compiled of
        (lineStack', compiled') \<Rightarrow>
          compileLoop ls (l # lineStack') (compiled' @ getOpeningTag l))"

definition compile :: "Line list \<Rightarrow> string" where
  "compile ls = compileLoop ls [] []"

text \<open>
  The program as a whole: the content is pre-processed, the compiler is built on the
  result and \<^verbatim>\<open>compile\<close> gives the text that is written out.
\<close>

definition htmplate :: "string \<Rightarrow> string option" where
  "htmplate content = map_option (\<lambda>canonical. compile (Compiler canonical)) (process content)"

section \<open>Measures of the output used to state the properties\<close>

text \<open>
  The emitter seen as a sequence of events: in \<^verbatim>\<open>compile\<close> every line is pushed once
  (its opening text is appended) and popped once (its closing text is appended).
  \<open>emit ls lineStack\<close> lists these events for the lines \<open>ls\<close> still to come and the
  stack \<open>lineStack\<close>; \<open>compileLoop_events\<close> below proves that the text \<^verbatim>\<open>compile\<close> returns is
  the rendering of these events.
\<close>

datatype event = Open Line | Close Line

fun renderEvent :: "event \<Rightarrow> string" where
  "renderEvent (Open l) = getOpeningTag l"
| "renderEvent (Close l) = getClosingTag l"

fun emit :: "Line list \<Rightarrow> Line list \<Rightarrow> event list" where
  "emit [] lineStack = map Close lineStack"
| "emit (l # ls) lineStack =
     map Close (takeWhile (\<lambda>t. level l \<le> level t) lineStack)
     @ Open l # emit ls (l # dropWhile (\<lambda>t. level l \<le> level t) lineStack)"


















text \<open>
  Two notions used to state how \<^verbatim>\<open>_parseLines\<close> assembles the attributes. An object is
  well formed when its keys are distinct and \<^verbatim>\<open>__proto__\<close> is not among them; every
  object built by assignments is. \<open>shorthandProps l\<close> is the attribute object of a new
  line with text \<open>l\<close> after the two assignments of \<^verbatim>\<open>id\<close> and \<^verbatim>\<open>class\<close> in
  \<^verbatim>\<open>_parseLines\<close>, before the named attributes are copied in.
\<close>

definition wfobj :: "jsobject \<Rightarrow> bool" where
  "wfobj p = (distinct (map fst p) \<and> ''__proto__'' \<notin> set (map fst p))"

definition shorthandProps :: "string \<Rightarrow> jsobject" where
  "shorthandProps l =
     (let p1 = (case parseId l of
                  Some i \<Rightarrow> if i \<noteq> [] then obj_set [] ''id'' i else []
                | None \<Rightarrow> [])
      in (case parseClasses l of
            Some cl \<Rightarrow> if cl \<noteq> [] then obj_set p1 ''class'' cl else p1
          | None \<Rightarrow> p1))"

text \<open>
  The number of leading spaces of a line, and the lines of a canonical text: no line
  holds a line break and none is blank.
\<close>

definition leadingSpaces :: "string \<Rightarrow> nat" where
  "leadingSpaces l = length (takeWhile (\<lambda>c. c = SPC) l)"

definition canonicalLines :: "string list \<Rightarrow> bool" where
  "canonicalLines ls = list_all (\<lambda>l. NL \<notin> set l \<and> trim l \<noteq> []) ls"

section \<open>The emitter opens and closes every line once\<close>

lemma closeFrom_eq:
  "closeFrom st lv out = (dropWhile (\<lambda>t. lv \<le> level t) st,
      out @ concat (map getClosingTag (takeWhile (\<lambda>t. lv \<le> level t) st)))"
  by (induction st arbitrary: out) auto

lemma closeAll_eq: "closeAll st out = out @ concat (map getClosingTag st)"
  by (induction st arbitrary: out) auto

lemma render_closes: "renderEvent \<circ> Close = getClosingTag"
  by (rule ext) simp

lemma compileLoop_events:
  "compileLoop ls st out = out @ concat (map renderEvent (emit ls st))"
  by (induction ls arbitrary: st out) (simp_all add: closeFrom_eq closeAll_eq render_closes)








section \<open>Lines without a tag and lines with an open parenthesis group\<close>

lemma firstIndex_None: "firstIndex P s = None \<longleftrightarrow> (\<forall>c\<in>set s. \<not> P c)"
  by (induction s) auto

lemma parseIdFrom_no_hash: "CHR ''#'' \<notin> set s \<Longrightarrow> parseIdFrom l i s = None"
  by (induction s arbitrary: i) auto

lemma classesFrom_no_dot: "CHR ''.'' \<notin> set s \<Longrightarrow> classesFrom l i b s = []"
  by (induction s arbitrary: i b) auto

lemma findParens_closed: "CHR '')'' \<notin> set s \<Longrightarrow> findParens s i True st = None"
  by (induction s arbitrary: i) auto

lemma findParens_unterminated:
  "CHR '')'' \<notin> set (dropWhile (\<lambda>c. c \<noteq> CHR ''('') s) \<Longrightarrow> findParens s i False st = None"
  by (induction s arbitrary: i st) (auto simp: findParens_closed)

lemma parseProps_unterminated:
  "CHR '')'' \<notin> set (dropWhile (\<lambda>c. c \<noteq> CHR ''('') l) \<Longrightarrow> parseProps l = []"
  by (simp add: parseProps_def findParens_unterminated)

lemma no_open_unterminated:
  "CHR ''('' \<notin> set l \<Longrightarrow> CHR '')'' \<notin> set (dropWhile (\<lambda>c. c \<noteq> CHR ''('') l)"
  by (induction l) auto

lemma parseLine_NO_TAG:
  assumes "tag (parseLine L) = NO_TAG"
  shows "props (parseLine L) = props L"
proof -
  from assms have "parseTag (line L) = NO_TAG"
    by (simp add: parseLine_def Let_def)
  then have nodelim: "\<forall>c\<in>set (line L). \<not> isTagDelim c"
    by (simp add: parseTag_def firstIndex_None split: option.splits)
  then have "CHR ''#'' \<notin> set (line L)" "CHR ''.'' \<notin> set (line L)" "CHR ''('' \<notin> set (line L)"
    by (auto simp: isTagDelim_def)
  then have "parseId (line L) = None" "parseClasses (line L) = None" "parseProps (line L) = []"
    by (simp_all add: parseId_def parseIdFrom_no_hash parseClasses_def classesFrom_no_dot
        parseProps_unterminated no_open_unterminated)
  then show ?thesis
    by (simp add: parseLine_def forInEntries_def)
qed

lemma expand_props:
  "\<forall>l\<in>set ls. props l = [] \<Longrightarrow> \<forall>l\<in>set (expandSingleLineStatements ls). props l = []"
proof (induction ls rule: expandSingleLineStatements.induct)
  case 1
  show ?case by simp
next
  case (2 l ls)
  from "2.prems" have l: "props l = []" and ls: "\<forall>x\<in>set ls. props x = []"
    by simp_all
  show ?case
  proof (cases "findColon (line l) False")
    case None
    with "2.IH"(1) l ls show ?thesis by simp
  next
    case (Some j)
    show ?thesis
    proof (cases "length (trim (substringFrom (line l) (j + 1))) \<noteq> 0")
      case True
      have "\<forall>x\<in>set (newLine (trim (substringFrom (line l) (j + 1))) (level l + 1) # ls).
          props x = []"
        using ls by (simp add: newLine_def)
      with "2.IH"(2) [OF Some True] l Some True show ?thesis by simp
    next
      case False
      with "2.IH"(3) [OF Some False] l ls Some show ?thesis by simp
    qed
  qed
qed

lemma getLineObjects_props: "\<forall>l\<in>set (getLineObjects content). props l = []"
  by (simp add: getLineObjects_def getLineObject_def newLine_def Let_def)

text \<open>
  Claim C9. For every line the compiler has parsed, if its tag is \<^verbatim>\<open>NO_TAG\<close> then its
  attribute object is empty, its opening text is the text of the line after as many
  tabs as its level, followed by a line break, and its closing text is empty.
\<close>

theorem no_tag_line_is_raw_text:
  assumes "L \<in> set (Compiler content)" and "tag L = NO_TAG"
  shows "props L = []
    \<and> getOpeningTag L = replicate (level L) TAB @ line L @ [NL]
    \<and> getClosingTag L = []"
proof -
  from assms(1) obtain L0 where L0: "L0 \<in> set (expandSingleLineStatements (getLineObjects content))"
      and L: "L = parseLine L0"
    by (auto simp: Compiler_def parseLines_def)
  have "props L0 = []"
    using expand_props [OF getLineObjects_props] L0 by blast
  with parseLine_NO_TAG [of L0] assms(2) L have "props L = []" by simp
  with assms(2) show ?thesis
    by (simp add: getOpeningTag_def getClosingTag_def)
qed

theorem no_tag_line_is_raw_text_witness:
  "\<lparr>line = ''li Hello'', level = 1, tag = NO_TAG, props = []\<rparr> \<in> set (Compiler ''ul: li Hello'')
   \<and> getOpeningTag \<lparr>line = ''li Hello'', level = 1, tag = NO_TAG, props = []\<rparr>
       = [TAB] @ ''li Hello\<newline>''
   \<and> getClosingTag \<lparr>line = ''li Hello'', level = 1, tag = NO_TAG, props = []\<rparr> = []"
proof -
  have m: "\<lparr>line = ''li Hello'', level = 1, tag = NO_TAG, props = []\<rparr>
      \<in> set (Compiler ''ul: li Hello'')"
    by code_simp
  have t: "tag \<lparr>line = ''li Hello'', level = 1, tag = NO_TAG, props = []\<rparr> = NO_TAG"
    by simp
  from no_tag_line_is_raw_text [OF m t] m show ?thesis
    by simp
qed

lemma obj_set_keys:
  "map fst (obj_set p k v)
     = (if k = ''__proto__'' \<or> k \<in> set (map fst p) then map fst p else map fst p @ [k])"
  by (auto simp: obj_set_def)

lemma getOpeningTag_nonempty: "getOpeningTag l \<noteq> []"
  by (simp add: getOpeningTag_def)

section \<open>Assembly of the attributes\<close>

lemma obj_set_wf: "wfobj p \<Longrightarrow> wfobj (obj_set p k v)"
  by (auto simp: wfobj_def obj_set_keys)

lemma map_of_update_other:
  "k' \<noteq> k \<Longrightarrow>
   map_of (map (\<lambda>(k', v'). if k' = k then (k', v) else (k', v')) p) k' = map_of p k'"
  by (induction p) auto

lemma map_of_update_same:
  "k \<in> fst ` set p \<Longrightarrow>
   map_of (map (\<lambda>(k', v'). if k' = k then (k', v) else (k', v')) p) k = Some v"
  by (induction p) auto

lemma obj_get_set:
  assumes "k \<noteq> ''__proto__''"
  shows "obj_get (obj_set p k v) k' = (if k' = k then Some v else obj_get p k')"
proof (cases "k \<in> fst ` set p")
  case True
  with assms have "obj_set p k v = map (\<lambda>(k', v'). if k' = k then (k', v) else (k', v')) p"
    by (simp add: obj_set_def)
  with True show ?thesis
    by (simp add: obj_get_def map_of_update_other map_of_update_same)
next
  case False
  with assms have "obj_set p k v = p @ [(k, v)]"
    by (simp add: obj_set_def)
  moreover from False have "map_of p k = None"
    by (simp add: map_of_eq_None_iff)
  ultimately show ?thesis
    by (cases "map_of p k'") (auto simp: obj_get_def map_add_def)
qed

lemma propsLoop_wf: "wfobj p \<Longrightarrow> wfobj (propsLoop s i st p)"
proof (induction s i st p rule: propsLoop.induct)
  case (1 s i st p)
  show ?case
  proof (cases "i < length s")
    case False
    then show ?thesis using "1.prems" by (subst propsLoop.simps) simp
  next
    case True
    show ?thesis
    proof (cases st)
      case None
      with True "1.IH"(1) "1.prems" show ?thesis by (subst propsLoop.simps) simp
    next
      case (Some a)
      show ?thesis
      proof (cases "s ! i = CHR '':''")
        case c: True
        from "1.IH"(2) [OF True Some c] obj_set_wf [OF "1.prems"] True Some c
        show ?thesis by (subst propsLoop.simps) simp
      next
        case c: False
        from "1.IH"(3) [OF True Some c "1.prems"] True Some c
        show ?thesis by (subst propsLoop.simps) simp
      qed
    qed
  qed
qed

lemma wfobj_empty: "wfobj []"
  by (simp add: wfobj_def)

lemma parseProps_wf: "wfobj (parseProps l)"
  by (simp add: parseProps_def propsLoop_wf wfobj_empty split: option.splits prod.splits)

lemma forIn_mset: "mset (forInEntries ob) = mset ob"
  by (simp add: forInEntries_def)

lemma forIn_wf: "wfobj ob \<Longrightarrow> wfobj (forInEntries ob)"
proof -
  assume w: "wfobj ob"
  have "mset (map fst (forInEntries ob)) = mset (map fst ob)"
    by (simp add: forIn_mset)
  then have "distinct (map fst (forInEntries ob)) = distinct (map fst ob)"
      and "set (map fst (forInEntries ob)) = set (map fst ob)"
    by (metis mset_eq_imp_distinct_iff, metis set_mset_mset)
  with w show ?thesis by (simp add: wfobj_def del: set_map)
qed

lemma forIn_map_of: "wfobj ob \<Longrightarrow> map_of (forInEntries ob) = map_of ob"
proof -
  assume w: "wfobj ob"
  have "set (forInEntries ob) = set ob"
    by (metis forIn_mset set_mset_mset)
  moreover have "distinct (map fst (forInEntries ob))" "distinct (map fst ob)"
    using forIn_wf [OF w] w by (simp_all add: wfobj_def)
  ultimately show ?thesis
    by (simp add: map_of_inject_set)
qed

lemma foldl_obj_get:
  "wfobj es \<Longrightarrow>
   obj_get (foldl (\<lambda>p e. obj_set p (fst e) (snd e)) p es) k
     = (case map_of es k of Some v \<Rightarrow> Some v | None \<Rightarrow> obj_get p k)"
proof (induction es arbitrary: p)
  case Nil
  show ?case by simp
next
  case (Cons e es)
  from Cons.prems have w: "wfobj es" and ne: "fst e \<noteq> ''__proto__''"
    and fresh: "fst e \<notin> set (map fst es)"
    by (auto simp: wfobj_def)
  from fresh have "map_of es (fst e) = None"
    by (simp add: map_of_eq_None_iff)
  with Cons.IH [OF w, of "obj_set p (fst e) (snd e)"] ne show ?case
    by (cases e) (auto simp: obj_get_set split: option.splits)
qed

lemma parseLine_props:
  "props (parseLine (newLine l lv))
     = foldl (\<lambda>p e. obj_set p (fst e) (snd e)) (shorthandProps l)
         (forInEntries (parseProps l))"
  by (simp add: parseLine_def newLine_def Let_def shorthandProps_def split: option.splits)

text \<open>
  Whatever \<^verbatim>\<open>_parseProps\<close> returns for a key is the value of that key in the parsed
  line: the named attributes are copied in after the shorthand \<^verbatim>\<open>id\<close> and \<^verbatim>\<open>class\<close>.
\<close>

lemma parseLine_named:
  assumes "obj_get (parseProps l) k = Some v"
  shows "obj_get (props (parseLine (newLine l lv))) k = Some v"
proof -
  have "map_of (forInEntries (parseProps l)) k = Some v"
    using assms by (simp add: forIn_map_of [OF parseProps_wf] obj_get_def)
  then show ?thesis
    unfolding parseLine_props
    by (simp add: foldl_obj_get [OF forIn_wf [OF parseProps_wf]])
qed

section \<open>The pre-processor: rewriting and idempotence\<close>

lemma split_nonempty: "split x \<noteq> []"
  by (induction x) (auto split: list.splits)

lemma split_no_NL: "l \<in> set (split x) \<Longrightarrow> NL \<notin> set l"
  by (induction x arbitrary: l) (auto split: list.splits if_splits)

lemma split_single: "NL \<notin> set l \<Longrightarrow> split l = [l]"
  by (induction l) auto

lemma split_line: "NL \<notin> set l \<Longrightarrow> split (l @ NL # rest) = l # split rest"
  by (induction l) auto

lemma split_join:
  "ls \<noteq> [] \<Longrightarrow> list_all (\<lambda>l. NL \<notin> set l) ls \<Longrightarrow> split (join [NL] ls) = ls"
  by (induction "[NL]" ls rule: join.induct) (simp_all add: split_single split_line)

lemma all_dropWhile: "(\<forall>x\<in>set (dropWhile P l). P x) \<longleftrightarrow> (\<forall>x\<in>set l. P x)"
  by (induction l) auto

lemma trim_empty_iff: "trim l = [] \<longleftrightarrow> (\<forall>c\<in>set l. isWhiteSpace c)"
  by (simp add: trim_def dropWhile_eq_Nil_conv all_dropWhile)

lemma removeEmptyLines_canonical:
  "list_all (\<lambda>l. NL \<notin> set l) ls \<Longrightarrow> canonicalLines (removeEmptyLines ls)"
  by (induction ls) (auto simp: canonicalLines_def)

lemma removeEmptyLines_id: "canonicalLines ls \<Longrightarrow> removeEmptyLines ls = ls"
  by (induction ls) (auto simp: canonicalLines_def)

lemma lines_of_join:
  assumes "canonicalLines ls"
  shows "removeEmptyLines (split (join [NL] ls)) = ls"
proof (cases "ls = []")
  case True
  then show ?thesis by (simp add: trim_def)
next
  case False
  from assms have "list_all (\<lambda>l. NL \<notin> set l) ls"
    by (simp add: canonicalLines_def list_all_iff)
  with False have "split (join [NL] ls) = ls"
    by (rule split_join)
  with assms show ?thesis
    by (simp add: removeEmptyLines_id)
qed

lemma process_tabs:
  "canonicalLines ls \<Longrightarrow> getIndentationType ls = INDENTED_WITH_TABS \<Longrightarrow>
   process (join [NL] ls) = Some (join [NL] ls)"
  by (simp add: process_def lines_of_join)

lemma tabsLoop_eq: "tabsLoop j q tabs = tabs @ replicate (nat \<lceil>q\<rceil> - j) TAB"
proof (induction j q tabs rule: tabsLoop.induct)
  case (1 j q tabs)
  show ?case
  proof (cases "of_nat j < q")
    case True
    then have "int j < \<lceil>q\<rceil>"
      by (simp add: less_ceiling_iff)
    then have "nat \<lceil>q\<rceil> - j = Suc (nat \<lceil>q\<rceil> - Suc j)"
      by linarith
    with True "1.IH" show ?thesis
      by (subst tabsLoop.simps) (simp add: replicate_append_same)
  next
    case False
    then have "\<lceil>q\<rceil> \<le> int j"
      by (simp add: ceiling_le_iff)
    then have "nat \<lceil>q\<rceil> - j = 0"
      by linarith
    with False show ?thesis
      by (subst tabsLoop.simps) simp
  qed
qed

lemma firstIndex_Some:
  "\<exists>c\<in>set l. P c \<Longrightarrow> firstIndex P l = Some (length (takeWhile (\<lambda>c. \<not> P c) l))"
  by (induction l) auto

lemma replaceSpacesInLine_eq:
  assumes "0 < w" and "\<exists>c\<in>set l. c \<noteq> SPC"
  shows "replaceSpacesInLine w l
    = Some (replicate (nat \<lceil>of_nat (leadingSpaces l) / of_nat w :: rat\<rceil>) TAB
        @ drop (leadingSpaces l) l)"
proof -
  have "firstIndex (\<lambda>d. d \<noteq> SPC) l = Some (leadingSpaces l)"
    using firstIndex_Some [OF assms(2)] by (simp add: leadingSpaces_def)
  moreover from assms(1) have "js_div (leadingSpaces l) w
      = Finite (of_nat (leadingSpaces l) / of_nat w)"
    by (simp add: js_div_def)
  then have "makeTabs (js_div (leadingSpaces l) w)
      = Some (replicate (nat \<lceil>of_nat (leadingSpaces l) / of_nat w :: rat\<rceil>) TAB)"
    by (simp add: makeTabs_def tabsLoop_eq)
  ultimately show ?thesis
    by (simp add: replaceSpacesInLine_def substringFrom_def)
qed

lemma replaceSpacesWithTabs_eq:
  "0 < w \<Longrightarrow> list_all (\<lambda>l. \<exists>c\<in>set l. c \<noteq> SPC) ls \<Longrightarrow>
   replaceSpacesWithTabs w ls
     = Some (map (\<lambda>l. replicate (nat \<lceil>of_nat (leadingSpaces l) / of_nat w :: rat\<rceil>) TAB
          @ drop (leadingSpaces l) l) ls)"
  by (induction ls) (simp_all add: replaceSpacesInLine_eq)

lemma nonblank_nonspace: "trim l \<noteq> [] \<Longrightarrow> \<exists>c\<in>set l. c \<noteq> SPC"
  by (auto simp: trim_empty_iff isWhiteSpace_def)

lemma canonical_nonspace: "canonicalLines ls \<Longrightarrow> list_all (\<lambda>l. \<exists>c\<in>set l. c \<noteq> SPC) ls"
  by (induction ls) (simp_all add: canonicalLines_def nonblank_nonspace)

lemma spacesPerTab_pos:
  "canonicalLines ls \<Longrightarrow> getIndentationType ls = INDENTED_WITH_SPACES \<Longrightarrow>
   0 < getSpacesPerTab ls"
proof (induction ls rule: getIndentationType.induct)
  case 1
  then show ?case by simp
next
  case (2 ls)
  then show ?case by (simp add: canonicalLines_def)
next
  case (3 c cs ls)
  show ?case
  proof (cases "c = SPC")
    case True
    from "3.prems"(1) have "\<exists>d\<in>set (c # cs). d \<noteq> SPC"
      by (simp add: canonicalLines_def nonblank_nonspace del: set_simps)
    then have "firstIndex (\<lambda>d. d \<noteq> SPC) (c # cs)
        = Some (length (takeWhile (\<lambda>c. \<not> c \<noteq> SPC) (c # cs)))"
      by (rule firstIndex_Some)
    with True show ?thesis by simp
  next
    case False
    with "3.prems" "3.IH" show ?thesis
      by (simp add: canonicalLines_def split: if_splits)
  qed
qed

lemma process_spaces:
  assumes "getIndentationType (removeEmptyLines (split x)) = INDENTED_WITH_SPACES"
  shows "0 < getSpacesPerTab (removeEmptyLines (split x))"
    and "process x = Some (join [NL]
      (map (\<lambda>l. replicate (nat \<lceil>of_nat (leadingSpaces l)
                / of_nat (getSpacesPerTab (removeEmptyLines (split x))) :: rat\<rceil>) TAB
             @ drop (leadingSpaces l) l)
        (removeEmptyLines (split x))))"
proof -
  have "list_all (\<lambda>l. NL \<notin> set l) (split x)"
    by (simp add: list_all_iff split_no_NL)
  then have can: "canonicalLines (removeEmptyLines (split x))"
    by (rule removeEmptyLines_canonical)
  from spacesPerTab_pos [OF can assms]
  show pos: "0 < getSpacesPerTab (removeEmptyLines (split x))" .
  from replaceSpacesWithTabs_eq [OF pos canonical_nonspace [OF can]] assms
  show "process x = Some (join [NL]
      (map (\<lambda>l. replicate (nat \<lceil>of_nat (leadingSpaces l)
                / of_nat (getSpacesPerTab (removeEmptyLines (split x))) :: rat\<rceil>) TAB
             @ drop (leadingSpaces l) l)
        (removeEmptyLines (split x))))"
    by (simp add: process_def Let_def)
qed

lemma split_canonical: "canonicalLines (removeEmptyLines (split x))"
proof -
  have "list_all (\<lambda>l. NL \<notin> set l) (split x)"
    by (simp add: list_all_iff split_no_NL)
  then show ?thesis
    by (rule removeEmptyLines_canonical)
qed

lemma no_space_start:
  "list_all (\<lambda>l. l \<noteq> [] \<and> hd l \<noteq> SPC) ls \<Longrightarrow> getIndentationType ls = INDENTED_WITH_TABS"
  by (induction ls rule: getIndentationType.induct) auto

lemma retab_line:
  assumes "NL \<notin> set l" and "trim l \<noteq> []"
  shows "NL \<notin> set (replicate n TAB @ drop (leadingSpaces l) l)"
    and "trim (replicate n TAB @ drop (leadingSpaces l) l) \<noteq> []"
    and "replicate n TAB @ drop (leadingSpaces l) l \<noteq> []"
    and "hd (replicate n TAB @ drop (leadingSpaces l) l) \<noteq> SPC"
proof -
  let ?d = "dropWhile (\<lambda>c. c = SPC) l"
  have d: "drop (leadingSpaces l) l = ?d"
    by (simp add: leadingSpaces_def dropWhile_eq_drop)
  from assms(2) obtain c where c: "c \<in> set l" "\<not> isWhiteSpace c"
    by (auto simp: trim_empty_iff)
  then have "c \<noteq> SPC"
    by (auto simp: isWhiteSpace_def)
  have "set l = set (takeWhile (\<lambda>c. c = SPC) l) \<union> set ?d"
    by (metis set_append takeWhile_dropWhile_id)
  moreover have "c \<notin> set (takeWhile (\<lambda>c. c = SPC) l)"
    using \<open>c \<noteq> SPC\<close> by (auto dest: set_takeWhileD)
  ultimately have cd: "c \<in> set ?d"
    using c(1) by auto
  have ne: "?d \<noteq> []"
  proof
    assume "?d = []"
    with cd show False by simp
  qed
  have hd: "hd ?d \<noteq> SPC"
    using hd_dropWhile [OF ne] .
  show "NL \<notin> set (replicate n TAB @ drop (leadingSpaces l) l)"
    using assms(1) by (auto simp: d dest: set_dropWhileD)
  show "trim (replicate n TAB @ drop (leadingSpaces l) l) \<noteq> []"
    using cd c(2) by (auto simp: trim_empty_iff d)
  show "replicate n TAB @ drop (leadingSpaces l) l \<noteq> []"
    using ne by (simp add: d)
  show "hd (replicate n TAB @ drop (leadingSpaces l) l) \<noteq> SPC"
    using hd ne by (cases n) (simp_all add: d)
qed

lemma retab_canonical:
  assumes "canonicalLines ls"
  shows "canonicalLines (map (\<lambda>l. replicate (n l) TAB @ drop (leadingSpaces l) l) ls)"
    and "getIndentationType (map (\<lambda>l. replicate (n l) TAB @ drop (leadingSpaces l) l) ls)
      = INDENTED_WITH_TABS"
proof -
  have each: "NL \<notin> set l \<and> trim l \<noteq> []" if "l \<in> set ls" for l
    using assms that by (simp add: canonicalLines_def list_all_iff)
  have "\<forall>l\<in>set ls. NL \<notin> set (replicate (n l) TAB @ drop (leadingSpaces l) l)
      \<and> trim (replicate (n l) TAB @ drop (leadingSpaces l) l) \<noteq> []"
    using each retab_line(1) retab_line(2) by blast
  then show "canonicalLines (map (\<lambda>l. replicate (n l) TAB @ drop (leadingSpaces l) l) ls)"
    by (simp only: canonicalLines_def list_all_iff set_map ball_simps)
  have "\<forall>l\<in>set ls. replicate (n l) TAB @ drop (leadingSpaces l) l \<noteq> []
      \<and> hd (replicate (n l) TAB @ drop (leadingSpaces l) l) \<noteq> SPC"
    using each retab_line(3) retab_line(4) by blast
  then have "list_all (\<lambda>l. l \<noteq> [] \<and> hd l \<noteq> SPC)
      (map (\<lambda>l. replicate (n l) TAB @ drop (leadingSpaces l) l) ls)"
    by (simp only: list_all_iff set_map ball_simps)
  then show "getIndentationType (map (\<lambda>l. replicate (n l) TAB @ drop (leadingSpaces l) l) ls)
      = INDENTED_WITH_TABS"
    by (rule no_space_start)
qed

text \<open>
  Claim C5, amended. For every space-indented document (the first line that starts with
  white space starts with a space), the inferred width is positive and \<^verbatim>\<open>process\<close>
  returns the non-blank lines, each with its leading run of spaces replaced by
  \<open>\<lceil>leadingSpaces / width\<rceil>\<close> tabs, joined by line breaks: the quotient is rounded up, as
  the loop \<^verbatim>\<open>for (j = 0; j < numTabs; j++)\<close> runs once more for a fractional rest.
\<close>

theorem leading_spaces_become_ceiling_tabs:
  assumes "getIndentationType (removeEmptyLines (split x)) = INDENTED_WITH_SPACES"
  shows "0 < getSpacesPerTab (removeEmptyLines (split x))
    \<and> process x = Some (join [NL]
      (map (\<lambda>l. replicate (nat \<lceil>of_nat (leadingSpaces l)
                / of_nat (getSpacesPerTab (removeEmptyLines (split x))) :: rat\<rceil>) TAB
             @ drop (leadingSpaces l) l)
        (removeEmptyLines (split x))))"
  using process_spaces [OF assms] by simp

theorem leading_spaces_become_ceiling_tabs_witness:
  "getIndentationType (removeEmptyLines (split ''a\<newline>  b\<newline>   c'')) = INDENTED_WITH_SPACES
   \<and> getSpacesPerTab (removeEmptyLines (split ''a\<newline>  b\<newline>   c'')) = 2
   \<and> map leadingSpaces (removeEmptyLines (split ''a\<newline>  b\<newline>   c'')) = [0, 2, 3]
   \<and> process ''a\<newline>  b\<newline>   c''
       = Some (''a\<newline>'' @ [TAB] @ ''b\<newline>'' @ [TAB, TAB] @ ''c'')"
proof -
  have h: "getIndentationType (removeEmptyLines (split ''a\<newline>  b\<newline>   c''))
      = INDENTED_WITH_SPACES"
    by code_simp
  have w: "getSpacesPerTab (removeEmptyLines (split ''a\<newline>  b\<newline>   c'')) = 2"
    by code_simp
  have k: "map leadingSpaces (removeEmptyLines (split ''a\<newline>  b\<newline>   c'')) = [0, 2, 3]"
    by code_simp
  have r: "join [NL]
      (map (\<lambda>l. replicate (nat \<lceil>of_nat (leadingSpaces l)
                / of_nat (getSpacesPerTab (removeEmptyLines (split ''a\<newline>  b\<newline>   c''))) :: rat\<rceil>) TAB
             @ drop (leadingSpaces l) l)
        (removeEmptyLines (split ''a\<newline>  b\<newline>   c'')))
      = ''a\<newline>'' @ [TAB] @ ''b\<newline>'' @ [TAB, TAB] @ ''c''"
    by code_simp
  from leading_spaces_become_ceiling_tabs [OF h] h w k r show ?thesis
    by simp
qed

text \<open>
  Claim C6. \<^verbatim>\<open>process\<close> returns for every input, and processing its result again gives
  the same text.
\<close>

theorem process_idempotent: "\<exists>y. process x = Some y \<and> process y = Some y"
proof (cases "getIndentationType (removeEmptyLines (split x))")
  case INDENTED_WITH_TABS
  then have "process x = Some (join [NL] (removeEmptyLines (split x)))"
    by (simp add: process_def)
  moreover have "process (join [NL] (removeEmptyLines (split x)))
      = Some (join [NL] (removeEmptyLines (split x)))"
    using split_canonical INDENTED_WITH_TABS by (rule process_tabs)
  ultimately show ?thesis
    by blast
next
  case INDENTED_WITH_SPACES
  let ?ls = "map (\<lambda>l. replicate (nat \<lceil>of_nat (leadingSpaces l)
                / of_nat (getSpacesPerTab (removeEmptyLines (split x))) :: rat\<rceil>) TAB
             @ drop (leadingSpaces l) l)
        (removeEmptyLines (split x))"
  have "process x = Some (join [NL] ?ls)"
    using INDENTED_WITH_SPACES by (rule process_spaces(2))
  moreover have "process (join [NL] ?ls) = Some (join [NL] ?ls)"
    using retab_canonical [OF split_canonical] by (rule process_tabs)
  ultimately show ?thesis
    by blast
qed

section \<open>The program returns for every input\<close>

lemma process_returns: "\<exists>y. process x = Some y"
proof (cases "getIndentationType (removeEmptyLines (split x))")
  case INDENTED_WITH_TABS
  then show ?thesis by (simp add: process_def)
next
  case INDENTED_WITH_SPACES
  then show ?thesis using process_spaces(2) by blast
qed

lemma expand_nonempty: "ls \<noteq> [] \<Longrightarrow> expandSingleLineStatements ls \<noteq> []"
  by (cases ls) (simp_all split: option.splits)

lemma Compiler_nonempty: "Compiler content \<noteq> []"
  by (simp add: Compiler_def parseLines_def getLineObjects_def expand_nonempty split_nonempty)

lemma compile_nonempty: "ls \<noteq> [] \<Longrightarrow> compile ls \<noteq> []"
  by (cases ls) (simp_all add: compile_def compileLoop_events getOpeningTag_nonempty)

lemma htmplate_returns: "\<exists>out. htmplate x = Some out \<and> out \<noteq> []"
proof -
  from process_returns obtain y where "process x = Some y" by blast
  then show ?thesis
    by (simp add: htmplate_def compile_nonempty Compiler_nonempty)
qed

text \<open>
  Claim C8. For every line in which no \<^verbatim>\<open>)\<close> follows the first \<^verbatim>\<open>(\<close>, \<^verbatim>\<open>_parseProps\<close>
  returns the empty object, so the parsed line has no attributes but the \<^verbatim>\<open>id\<close> and
  \<^verbatim>\<open>class\<close> of the shorthand; compiling it gives its opening and closing text, and the
  program run on it returns a text that is not empty. (The code has no statement that
  throws; the only loop that may not end is the tab loop of the pre-processor, and the
  program never reaches it with a width of zero.)
\<close>

theorem unterminated_parenthesis_no_attributes:
  assumes "CHR '')'' \<notin> set (dropWhile (\<lambda>c. c \<noteq> CHR ''('') l)"
  shows "parseProps l = []
    \<and> set (map fst (props (parseLine (newLine l lv)))) \<subseteq> {''id'', ''class''}
    \<and> compile [parseLine (newLine l lv)]
        = getOpeningTag (parseLine (newLine l lv)) @ getClosingTag (parseLine (newLine l lv))
    \<and> (\<exists>out. htmplate l = Some out \<and> out \<noteq> [])"
proof -
  have pp: "parseProps l = []"
    using assms by (rule parseProps_unterminated)
  have keys: "set (map fst (props (parseLine (newLine l lv)))) \<subseteq> {''id'', ''class''}"
    by (auto simp: parseLine_def newLine_def pp forInEntries_def obj_set_def Let_def
        split: option.splits if_splits)
  have out: "compile [parseLine (newLine l lv)]
        = getOpeningTag (parseLine (newLine l lv)) @ getClosingTag (parseLine (newLine l lv))"
    by (simp add: compile_def)
  show ?thesis
    using pp keys out htmplate_returns by simp
qed

theorem unterminated_parenthesis_no_attributes_witness:
  "CHR '')'' \<notin> set (dropWhile (\<lambda>c. c \<noteq> CHR ''('') ''div(a:b'')
   \<and> parseProps ''div(a:b'' = []
   \<and> compile [parseLine (newLine ''div(a:b'' 0)] = ''<div>\<newline></div>\<newline>''
   \<and> htmplate ''div(a:b'' = Some ''<div>\<newline></div>\<newline>''"
proof -
  have h: "CHR '')'' \<notin> set (dropWhile (\<lambda>c. c \<noteq> CHR ''('') ''div(a:b'')"
    by simp
  have c: "getOpeningTag (parseLine (newLine ''div(a:b'' 0))
      @ getClosingTag (parseLine (newLine ''div(a:b'' 0)) = ''<div>\<newline></div>\<newline>''"
    by code_simp
  have e: "htmplate ''div(a:b'' = Some ''<div>\<newline></div>\<newline>''"
    by code_simp
  from unterminated_parenthesis_no_attributes [OF h, of 0] h c e show ?thesis
    by simp
qed

section \<open>The tags of the output\<close>




































section \<open>Inline-block expansion\<close>

text \<open>
  Claim C10. Expansion cascades: the line \<^verbatim>\<open>a: b: c\<close> at level \<open>k\<close> expands into the chain
  \<^verbatim>\<open>a:\<close> at level \<open>k\<close>, \<^verbatim>\<open>b:\<close> at level \<open>k + 1\<close> and \<^verbatim>\<open>c\<close> at level \<open>k + 2\<close>: the line
  spliced in by the first split is visited next and split again.
\<close>

theorem expansion_cascades:
  "expandSingleLineStatements [newLine ''a: b: c'' k]
     = [newLine ''a:'' k, newLine ''b:'' (k + 1), newLine ''c'' (k + 2)]"
  by (simp add: newLine_def substring_def substringFrom_def trim_def isWhiteSpace_def)

section \<open>Worked inputs\<close>

text \<open>
  Claim C2, on the code: for the line \<^verbatim>\<open>div.a.b.c\<close> the classes \<^verbatim>\<open>a\<close> and \<^verbatim>\<open>b\<close> are
  collected, each at the dot that follows it; after the last dot the inner loop of
  \<^verbatim>\<open>_parseClasses\<close> reaches the end of the line without meeting a delimiter and pushes
  nothing, so the \<^verbatim>\<open>class\<close> attribute is \<^verbatim>\<open>a b\<close>.
\<close>

theorem class_at_end_of_line_dropped:
  "Compiler ''div.a.b.c''
     = [\<lparr>line = ''div.a.b.c'', level = 0, tag = TagName ''div'',
          props = [(''class'', ''a b'')]\<rparr>]"
  by code_simp

text \<open>
  Claim C4, on the code: the line \<^verbatim>\<open>div#x(a:b id:y)\<close> has the shorthand id \<^verbatim>\<open>x\<close> and
  the named attribute \<^verbatim>\<open>id:y\<close>, but after the pair \<^verbatim>\<open>a:b\<close> and the space behind it the
  \<^verbatim>\<open>i++\<close> of the \<^verbatim>\<open>for\<close> statement in \<^verbatim>\<open>_parseProps\<close> steps over the \<^verbatim>\<open>i\<close> of \<^verbatim>\<open>id\<close>:
  the key read is \<^verbatim>\<open>d\<close>, and the element keeps \<^verbatim>\<open>id="x"\<close>.
\<close>

theorem named_id_after_first_pair_not_read:
  "parseId ''div#x(a:b id:y)'' = Some ''x''
   \<and> parseProps ''div#x(a:b id:y)'' = [(''a'', ''b''), (''d'', ''y'')]
   \<and> htmplate ''div#x(a:b id:y)''
       = Some (''<div id='' @ [CHR 0x22] @ ''x'' @ [CHR 0x22] @ '' a='' @ [CHR 0x22] @ ''b''
            @ [CHR 0x22] @ '' d='' @ [CHR 0x22] @ ''y'' @ [CHR 0x22] @ ''>\<newline></div>\<newline>'')"
  by code_simp

text \<open>
  Claim C3, as stated, fails: the line \<^verbatim>\<open>li Hello\<close> split off \<^verbatim>\<open>ul: li Hello\<close> holds
  no delimiter, so its tag is \<^verbatim>\<open>NO_TAG\<close> and there is no \<^verbatim>\<open>li\<close> element.
\<close>

theorem inline_child_is_text_counterexample:
  "map tag (Compiler ''ul: li Hello'') = [TagName ''ul'', NO_TAG]"
  by code_simp

text \<open>
  Claim C3, amended: the line \<^verbatim>\<open>ul: li Hello\<close> at level 0 compiles to the opening tag
  \<^verbatim>\<open><ul>\<close> at level 0, the text line \<^verbatim>\<open>li Hello\<close> indented by one tab, and the closing
  tag \<^verbatim>\<open></ul>\<close>.
\<close>

theorem inline_block_output:
  "htmplate ''ul: li Hello''
     = Some (''<ul>\<newline>'' @ [TAB] @ ''li Hello\<newline></ul>\<newline>'')"
  by code_simp

text \<open>
  Claim C1, as stated, fails: the output for the two-line example is not the three
  lines of the specification, with or without a line break at the end.
\<close>

theorem end_to_end_counterexample:
  "htmplate ''div.container\<newline>  p#greeting Hello world''
     \<noteq> Some (''<div class='' @ [CHR 0x22] @ ''container'' @ [CHR 0x22] @ ''>\<newline>''
          @ [TAB] @ ''<p id='' @ [CHR 0x22] @ ''greeting'' @ [CHR 0x22]
          @ ''>Hello world</p>\<newline></div>'')
   \<and> htmplate ''div.container\<newline>  p#greeting Hello world''
     \<noteq> Some (''<div class='' @ [CHR 0x22] @ ''container'' @ [CHR 0x22] @ ''>\<newline>''
          @ [TAB] @ ''<p id='' @ [CHR 0x22] @ ''greeting'' @ [CHR 0x22]
          @ ''>Hello world</p>\<newline></div>\<newline>'')"
  by code_simp

text \<open>
  Claim C1, amended: the two-line example compiles to exactly four lines: an opening
  tag \<^verbatim>\<open><div\<close>, attribute part, \<^verbatim>\<open>>\<close>; an opening tag \<^verbatim>\<open><p\<close>, attribute part, \<^verbatim>\<open>>\<close>,
  indented by one tab; the closing tag \<^verbatim>\<open></p>\<close> alone on its line, indented by one tab,
  so that nothing stands between the opening and the closing \<^verbatim>\<open>p\<close> tag; and \<^verbatim>\<open></div>\<close>.
  Each attribute part is empty or starts with a space and holds no \<^verbatim>\<open><\<close>, \<^verbatim>\<open>>\<close> or
  line break; what else it holds is left open.
\<close>

theorem end_to_end_output:
  "\<exists>attrs0 attrs1.
     htmplate ''div.container\<newline>  p#greeting Hello world''
       = Some (''<div'' @ attrs0 @ ''>\<newline>'' @ [TAB] @ ''<p'' @ attrs1 @ ''>\<newline>''
            @ [TAB] @ ''</p>\<newline></div>\<newline>'')
     \<and> (attrs0 = [] \<or> hd attrs0 = SPC) \<and> (attrs1 = [] \<or> hd attrs1 = SPC)
     \<and> NL \<notin> set attrs0 \<and> NL \<notin> set attrs1
     \<and> CHR ''<'' \<notin> set attrs0 \<and> CHR ''<'' \<notin> set attrs1
     \<and> CHR ''>'' \<notin> set attrs0 \<and> CHR ''>'' \<notin> set attrs1"
proof -
  have "htmplate ''div.container\<newline>  p#greeting Hello world''
       = Some (''<div'' @ [] @ ''>\<newline>'' @ [TAB] @ ''<p'' @ [] @ ''>\<newline>''
            @ [TAB] @ ''</p>\<newline></div>\<newline>'')"
    by code_simp
  then show ?thesis
    by (intro exI [of _ "[]"]) simp
qed


text \<open>
  Claim C5, as stated, fails: with an indent width of 2, a line with 3 leading spaces gets
  2 tabs, not 1.
\<close>

theorem three_spaces_counterexample:
  "getSpacesPerTab (removeEmptyLines (split ''a\<newline>  b\<newline>   c'')) = 2
   \<and> process ''a\<newline>  b\<newline>   c''
       = Some (''a\<newline>'' @ [TAB] @ ''b\<newline>'' @ [TAB, TAB] @ ''c'')
   \<and> process ''a\<newline>  b\<newline>   c''
       \<noteq> Some (''a\<newline>'' @ [TAB] @ ''b\<newline>'' @ [TAB] @ ''c'')"
  by code_simp

end
